theory Spec2Isabelle
  imports Main
begin

section \<open>Strings of the host language\<close>

text \<open>
  The plugin is TypeScript; its strings are sequences of UTF-16 code units. They are
  modelled as \<^typ>\<open>string\<close>, every \<^typ>\<open>char\<close> standing for the code unit of the
  same number (0 to 255, the Latin-1 range). In that range the white space of
  \<^verbatim>\<open>String.prototype.trim\<close> and of the regular expression class \<^verbatim>\<open>\s\<close> is
  TAB, LF, VT, FF, CR, SPACE and NBSP, and the line terminators of \<^verbatim>\<open>^\<close>, \<^verbatim>\<open>$\<close>
  and \<^verbatim>\<open>.\<close> are LF and CR.
\<close>

definition is_space :: "char \<Rightarrow> bool" where
  "is_space c = (c \<in> set [CHR 0x09, CHR 0x0A, CHR 0x0B, CHR 0x0C, CHR 0x0D, CHR 0x20, CHR 0xA0])"

definition is_line_terminator :: "char \<Rightarrow> bool" where
  "is_line_terminator c = (c = CHR 0x0A \<or> c = CHR 0x0D)"

definition is_hash :: "char \<Rightarrow> bool" where
  "is_hash c = (c = CHR ''#'')"

text \<open>\<^verbatim>\<open>s.trim()\<close>\<close>

definition trim :: "string \<Rightarrow> string" where
  "trim s = rev (dropWhile is_space (rev (dropWhile is_space s)))"

text \<open>\<^verbatim>\<open>s.startsWith(p)\<close>\<close>

definition startsWith :: "string \<Rightarrow> string \<Rightarrow> bool" where
  "startsWith s p = (take (length p) s = p)"

text \<open>\<^verbatim>\<open>s.includes(q)\<close>: \<open>q\<close> occurs in \<open>s\<close> at some index.\<close>

fun includes_str :: "string \<Rightarrow> string \<Rightarrow> bool" where
  "includes_str [] q = (q = [])"
| "includes_str (c # cs) q = (startsWith (c # cs) q \<or> includes_str cs q)"

text \<open>\<^verbatim>\<open>s.toLowerCase()\<close>, on the Latin-1 range: A to Z, and the capital letters
  0xC0 to 0xDE but the multiplication sign 0xD7, move up by 0x20.\<close>

definition lower_char :: "char \<Rightarrow> char" where
  "lower_char c =
     (let n = (of_char c :: nat)
      in if (65 \<le> n \<and> n \<le> 90) \<or> (192 \<le> n \<and> n \<le> 222 \<and> n \<noteq> 215)
         then char_of (n + 32) else c)"

definition toLowerCase :: "string \<Rightarrow> string" where
  "toLowerCase s = map lower_char s"

text \<open>\<^verbatim>\<open>s.split('\n')\<close>: the pieces of \<open>s\<close> between its LF characters, never the
  empty list. \<open>cur\<close> is the piece being read.\<close>

fun split_from :: "string \<Rightarrow> string \<Rightarrow> string list" where
  "split_from cur [] = [cur]"
| "split_from cur (c # cs) =
     (if c = CHR 0x0A then cur # split_from [] cs else split_from (cur @ [c]) cs)"

definition split_nl :: "string \<Rightarrow> string list" where
  "split_nl s = split_from [] s"

text \<open>The text of an editor whose lines are \<open>ls\<close>: the lines joined by LF.\<close>

fun join_nl :: "string list \<Rightarrow> string" where
  "join_nl [] = []"
| "join_nl [l] = l"
| "join_nl (l # l' # ls) = l @ CHR 0x0A # join_nl (l' # ls)"

text \<open>\<^verbatim>\<open>s.lastIndexOf(c)\<close> for a one-character \<open>c\<close>: the scan runs from the end,
  and the result is -1 when \<open>c\<close> does not occur.\<close>

definition lastIndexOf :: "string \<Rightarrow> char \<Rightarrow> int" where
  "lastIndexOf s c =
     (let k = length (takeWhile (\<lambda>x. x \<noteq> c) (rev s))
      in if k = length s then - 1 else int (length s - Suc k))"

text \<open>\<^verbatim>\<open>s.substring(a, b)\<close>: both indices are clamped to \<open>0 .. length s\<close> and swapped
  when \<open>a > b\<close>. \<^verbatim>\<open>s.substring(a)\<close> runs to the end.\<close>

definition substring :: "string \<Rightarrow> int \<Rightarrow> int \<Rightarrow> string" where
  "substring s a b =
     (let n = int (length s);
          a' = min (max a 0) n;
          b' = min (max b 0) n;
          lo = min a' b';
          hi = max a' b'
      in take (nat (hi - lo)) (drop (nat lo) s))"

definition substring_from :: "string \<Rightarrow> int \<Rightarrow> string" where
  "substring_from s a = substring s a (int (length s))"

subsection \<open>replaceAll with a string pattern\<close>

text \<open>
  \<^verbatim>\<open>GetSubstitution\<close> of ECMAScript for a string pattern (no captures): in the
  replacement text \<^verbatim>\<open>$$\<close> is a dollar sign, \<^verbatim>\<open>$&\<close> the matched text,
  \<^verbatim>\<open>$`\<close> the text before the match and \<^verbatim>\<open>$'\<close> the text after it; every other
  character, a dollar sign included, stands for itself.
\<close>

fun get_substitution :: "string \<Rightarrow> string \<Rightarrow> string \<Rightarrow> string \<Rightarrow> string" where
  "get_substitution matched before after [] = []"
| "get_substitution matched before after [c] = [c]"
| "get_substitution matched before after (c # d # r) =
     (if c = CHR ''$'' \<and> d = CHR ''$'' then CHR ''$'' # get_substitution matched before after r
      else if c = CHR ''$'' \<and> d = CHR ''&'' then matched @ get_substitution matched before after r
      else if c = CHR ''$'' \<and> d = CHR 0x60 then before @ get_substitution matched before after r
      else if c = CHR ''$'' \<and> d = CHR 0x27 then after @ get_substitution matched before after r
      else c # get_substitution matched before after (d # r))"

text \<open>
  \<^verbatim>\<open>s.replaceAll(pat, rep)\<close>: the occurrences of \<open>pat\<close> are found from left to right,
  the search resuming after each occurrence (one position further for the empty
  pattern), and each is replaced by the substitution of \<open>rep\<close>. \<open>seen\<close> is the part of
  \<open>s\<close> already scanned, \<open>rest\<close> the part still to scan.
\<close>

function replaceAll_from :: "string \<Rightarrow> string \<Rightarrow> string \<Rightarrow> string \<Rightarrow> string" where
  "replaceAll_from pat rep seen [] =
     (if pat = [] then get_substitution [] seen [] rep else [])"
| "replaceAll_from pat rep seen (c # cs) =
     (if pat = [] then
        get_substitution [] seen (c # cs) rep @ c # replaceAll_from pat rep (seen @ [c]) cs
      else if startsWith (c # cs) pat then
        get_substitution pat seen (drop (length pat) (c # cs)) rep
          @ replaceAll_from pat rep (seen @ pat) (drop (length pat) (c # cs))
      else c # replaceAll_from pat rep (seen @ [c]) cs)"
  by pat_completeness auto
termination
  by (relation "measure (\<lambda>(pat, rep, seen, rest). length rest)") auto

definition replaceAll :: "string \<Rightarrow> string \<Rightarrow> string \<Rightarrow> string" where
  "replaceAll s pat rep = replaceAll_from pat rep [] s"

subsection \<open>The three regular expressions of the plugin\<close>

text \<open>\<^verbatim>\<open>s.replace(/^#+\s*/, '')\<close>: without the \<^verbatim>\<open>m\<close> flag \<^verbatim>\<open>^\<close> is the start of
  \<open>s\<close>; the run of \<^verbatim>\<open>#\<close> there and the white space after it are removed, and a
  string that does not start with \<^verbatim>\<open>#\<close> is returned as it is.\<close>

definition strip_hashes :: "string \<Rightarrow> string" where
  "strip_hashes s =
     (if startsWith s ''#'' then dropWhile is_space (dropWhile is_hash s) else s)"

text \<open>\<^verbatim>\<open>s.replace(/\.md$/, '')\<close>: without the \<^verbatim>\<open>m\<close> flag \<^verbatim>\<open>$\<close> is the end of \<open>s\<close>.\<close>

definition strip_md :: "string \<Rightarrow> string" where
  "strip_md s =
     (if 3 \<le> length s \<and> drop (length s - 3) s = ''.md'' then take (length s - 3) s else s)"

text \<open>
  One attempt of \<^verbatim>\<open>/^#+\s.*$/m\<close> at a position where \<^verbatim>\<open>^\<close> holds, \<open>s\<close> being the
  text from that position on: the greedy run of \<^verbatim>\<open>#\<close> must be non-empty and the
  character after it white space (giving back a \<^verbatim>\<open>#\<close> cannot help, \<^verbatim>\<open>#\<close> is not
  white space); \<^verbatim>\<open>.*\<close> then takes everything up to the next line terminator, where
  \<^verbatim>\<open>$\<close> holds. The result is the match and the text after it.
\<close>

definition heading_at :: "string \<Rightarrow> (string \<times> string) option" where
  "heading_at s =
     (let hs = takeWhile is_hash s; r = dropWhile is_hash s
      in if hs = [] then None
         else (case r of
                 [] \<Rightarrow> None
               | w # r' \<Rightarrow>
                   if is_space w
                   then Some (hs @ w # takeWhile (\<lambda>c. \<not> is_line_terminator c) r',
                              dropWhile (\<lambda>c. \<not> is_line_terminator c) r')
                   else None))"

text \<open>
  \<^verbatim>\<open>content.match(/^#+\s.*$/gm) || []\<close>: all matches from left to right, the search
  resuming at the end of each match. \<open>bol\<close> says that \<^verbatim>\<open>^\<close> holds at the current
  position: it is the start of the text, or the character before it is a line
  terminator.
\<close>

function match_headings_from :: "bool \<Rightarrow> string \<Rightarrow> string list" where
  "match_headings_from bol [] = []"
| "match_headings_from bol (c # cs) =
     (case (if bol then heading_at (c # cs) else None) of
        Some (m, rest) \<Rightarrow> m # match_headings_from (is_line_terminator (last m)) rest
      | None \<Rightarrow> match_headings_from (is_line_terminator c) cs)"
  by pat_completeness auto
termination
proof (relation "measure (\<lambda>(bol, s). length s)")
  show "wf (measure (\<lambda>(bol, s). length s))" by simp
next
  fix bol c cs x m rest
  assume "(if bol then heading_at (c # cs) else None) = Some x" and "(m, rest) = x"
  then have "heading_at (c # cs) = Some (m, rest)"
    by (simp split: if_splits)
  then obtain w r' where r: "dropWhile is_hash (c # cs) = w # r'"
    and rest: "rest = dropWhile (\<lambda>c. \<not> is_line_terminator c) r'"
    by (auto simp: heading_at_def Let_def split: if_splits list.splits)
  have "length rest \<le> length r'"
    unfolding rest by (rule length_dropWhile_le)
  also have "length r' < length (dropWhile is_hash (c # cs))"
    unfolding r by simp
  also have "\<dots> \<le> length (c # cs)"
    by (rule length_dropWhile_le)
  finally have "length rest < length (c # cs)" .
  then show "((is_line_terminator (last m), rest), (bol, c # cs)) \<in> measure (\<lambda>(bol, s). length s)"
    by simp
next
  fix bol c cs
  show "((is_line_terminator c, cs), (bol, c # cs)) \<in> measure (\<lambda>(bol, s). length s)"
    by simp
qed

definition match_headings :: "string \<Rightarrow> string list" where
  "match_headings content = match_headings_from True content"

section \<open>The plugin\<close>

text \<open>
  The source file holds two revisions of the plugin. The model follows the second,
  which has \<^verbatim>\<open>matchLink\<close> and the search modal and names the placeholder of the
  directory \<^verbatim>\<open>${fileDir}\<close>; its \<^verbatim>\<open>copyLink\<close> is that of the first but for this name.
\<close>

subsection \<open>Settings, files, the view and the host\<close>

record settings =
  linkFormat :: string

definition DEFAULT_SETTINGS :: settings where
  "DEFAULT_SETTINGS = \<lparr>linkFormat = ''${fileDir}/${fileBasename}#${headingText}|${headingText}''\<rparr>"

text \<open>A file of the vault (\<^verbatim>\<open>TFile\<close>): its path and its basename, which the host
  gives without the extension.\<close>

record tfile =
  path :: string
  basename :: string

text \<open>What \<^verbatim>\<open>copyLink\<close> reads of a \<^verbatim>\<open>MarkdownView\<close>: \<^verbatim>\<open>editor.getValue()\<close>,
  \<^verbatim>\<open>editor.getCursor().line\<close> and \<^verbatim>\<open>view.file\<close>, which may be null.\<close>

record view =
  editor_value :: string
  cursor_line :: nat
  view_file :: "tfile option"

text \<open>
  The effects on the host, in the order they happen: the messages of
  \<^verbatim>\<open>new Notice(...)\<close>, the texts handed to \<^verbatim>\<open>navigator.clipboard.writeText\<close>, the
  texts handed to \<^verbatim>\<open>editor.replaceSelection\<close>, and the lines of
  \<^verbatim>\<open>console.error\<close>. \<open>clipboard_ok\<close> is the host's answer to a clipboard write:
  whether the promise is fulfilled.
\<close>

record host =
  notices :: "string list"
  clipboard :: "string list"
  replaced :: "string list"
  console :: "string list"
  clipboard_ok :: bool

definition notice :: "string \<Rightarrow> host \<Rightarrow> host" where
  "notice msg h = h\<lparr>notices := notices h @ [msg]\<rparr>"

definition replaceSelection :: "string \<Rightarrow> host \<Rightarrow> host" where
  "replaceSelection t h = h\<lparr>replaced := replaced h @ [t]\<rparr>"

text \<open>\<^verbatim>\<open>navigator.clipboard.writeText(t).then(...).catch(...)\<close>\<close>

definition writeText :: "string \<Rightarrow> host \<Rightarrow> host" where
  "writeText t h =
     (let h' = h\<lparr>clipboard := clipboard h @ [t]\<rparr>
      in if clipboard_ok h then notice ''Wiki link copied to clipboard!'' h'
         else h'\<lparr>console := console h' @ [''Failed to copy text: '']\<rparr>)"

text \<open>Reading an element of an array out of its range gives \<^verbatim>\<open>undefined\<close>, and
  calling a method on it throws.\<close>

datatype js_error = TypeError

subsection \<open>The link text\<close>

text \<open>
  The chain of three \<^verbatim>\<open>replaceAll\<close> calls that both flows apply to the link format,
  and the template literal around it, which adds the double square brackets.
\<close>

definition render :: "string \<Rightarrow> string \<Rightarrow> string \<Rightarrow> string \<Rightarrow> string" where
  "render fmt fileDir fileBasename headingText =
     replaceAll
       (replaceAll
          (replaceAll fmt ''${fileDir}'' fileDir)
          ''${fileBasename}'' fileBasename)
       ''${headingText}'' headingText"

definition wiki_link :: "string \<Rightarrow> string \<Rightarrow> string \<Rightarrow> string \<Rightarrow> string" where
  "wiki_link fmt fileDir fileBasename headingText =
     ''[['' @ render fmt fileDir fileBasename headingText @ '']]''"

subsection \<open>copyLink\<close>

text \<open>
  The loop of \<^verbatim>\<open>copyLink\<close> from line \<open>i\<close> down to line 0: \<open>Inr None\<close> is the
  \<^verbatim>\<open>null\<close> that \<^verbatim>\<open>headingText\<close> keeps when no line starts with \<^verbatim>\<open>#\<close>.
\<close>

fun nearest_heading :: "string list \<Rightarrow> nat \<Rightarrow> js_error + string option" where
  "nearest_heading lines i =
     (if length lines \<le> i then Inl TypeError
      else let line = trim (lines ! i)
           in if startsWith line ''#'' then Inr (Some (strip_hashes line))
              else (case i of 0 \<Rightarrow> Inr None | Suc j \<Rightarrow> nearest_heading lines j))"

declare nearest_heading.simps [simp del]

definition copyLink :: "settings \<Rightarrow> view \<Rightarrow> host \<Rightarrow> js_error + host" where
  "copyLink st v h =
     (case nearest_heading (split_nl (editor_value v)) (cursor_line v) of
        Inl e \<Rightarrow> Inl e
      | Inr None \<Rightarrow> Inr (notice ''No heading found above the current cursor position.'' h)
      | Inr (Some headingText) \<Rightarrow>
          if headingText = []
          then Inr (notice ''No heading found above the current cursor position.'' h)
          else (case view_file v of
                  None \<Rightarrow> Inr (notice ''No file is associated with the current view.'' h)
                | Some f \<Rightarrow>
                    let fileDir = substring (path f) 0 (lastIndexOf (path f) CHR ''/'');
                        fileBasename = basename f;
                        targetLink = wiki_link (linkFormat st) fileDir fileBasename headingText
                    in Inr (writeText targetLink h)))"

subsection \<open>matchLink and the search modal\<close>

text \<open>
  A result of the search as the modal shows it: its text, its two attributes as
  \<^verbatim>\<open>getAttribute\<close> returns them (a string or \<^verbatim>\<open>null\<close>), and the path of the file
  of the loop, which the click handler reads from its closure.
\<close>

record result_el =
  el_text :: string
  data_path :: "string option"
  data_heading :: "string option"
  file_path :: string

record modal =
  query :: string
  format :: string
  results :: "result_el list"
  opened :: bool

text \<open>The markdown files of the vault with the content that \<^verbatim>\<open>vault.read\<close> returns.\<close>

type_synonym vault = "(tfile \<times> string) list"

definition result_for :: "tfile \<Rightarrow> string \<Rightarrow> result_el" where
  "result_for f heading =
     (let headingText = strip_hashes heading
      in \<lparr>el_text = path f @ '' - '' @ headingText,
          data_path = Some (path f),
          data_heading = Some headingText,
          file_path = path f\<rparr>)"

definition searchHeadings :: "vault \<Rightarrow> modal \<Rightarrow> modal" where
  "searchHeadings files m =
     m\<lparr>results :=
         concat (map (\<lambda>(f, content).
                   map (result_for f)
                     (filter (\<lambda>heading. includes_str (toLowerCase heading) (query m))
                        (match_headings content)))
                 files)\<rparr>"

definition onOpen :: "vault \<Rightarrow> modal \<Rightarrow> modal" where
  "onOpen files m = searchHeadings files m"

text \<open>The handler of the search input: a keystroke sets the query to the value of
  the input as it is.\<close>

definition onChange :: "vault \<Rightarrow> string \<Rightarrow> modal \<Rightarrow> modal" where
  "onChange files v m = searchHeadings files (m\<lparr>query := v\<rparr>)"

text \<open>\<^verbatim>\<open>this.close()\<close>, with \<^verbatim>\<open>onClose\<close> emptying the content.\<close>

definition close :: "modal \<Rightarrow> modal" where
  "close m = m\<lparr>results := [], opened := False\<rparr>"

definition matchLink :: "settings \<Rightarrow> vault \<Rightarrow> string \<Rightarrow> host \<Rightarrow> host \<times> modal option" where
  "matchLink st files selection h =
     (let selectedText = toLowerCase selection
      in if selectedText = [] then (notice ''No text selected!'' h, None)
         else (h, Some (onOpen files
                 \<lparr>query = selectedText, format = linkFormat st, results = [], opened = True\<rparr>)))"

text \<open>The test \<^verbatim>\<open>!x\<close> of the click handler on an attribute: it holds for
  \<^verbatim>\<open>null\<close> and for the empty string.\<close>

definition missing :: "string option \<Rightarrow> bool" where
  "missing a = (case a of None \<Rightarrow> True | Some s \<Rightarrow> s = [])"

text \<open>The two parts of the path that the click handler computes: the basename from
  the path without its extension, the directory from that path too, cut at the index
  of the last separator of \<^verbatim>\<open>file.path\<close>.\<close>

definition click_fileBasename :: "string \<Rightarrow> string" where
  "click_fileBasename filePath =
     substring_from (strip_md filePath) (lastIndexOf (strip_md filePath) CHR ''/'' + 1)"

definition click_fileDir :: "string \<Rightarrow> string \<Rightarrow> string" where
  "click_fileDir filePath closure_path =
     substring (strip_md filePath) 0 (lastIndexOf closure_path CHR ''/'')"

definition onClick :: "result_el \<Rightarrow> modal \<times> host \<Rightarrow> modal \<times> host" where
  "onClick el mh =
     (let m = fst mh; h = snd mh;
          failed = (m, notice ''Failed to retrieve file path or heading.'' h)
      in if missing (data_path el) \<or> missing (data_heading el) then failed
         else (case (data_path el, data_heading el) of
                 (Some filePath, Some selectedHeading) \<Rightarrow>
                   let fileBasename = click_fileBasename filePath;
                       fileDir = click_fileDir filePath (file_path el);
                       link = wiki_link (format m) fileDir fileBasename selectedHeading
                   in (close m, notice ''Text replaced with link.'' (replaceSelection link h))
               | _ \<Rightarrow> failed))"

section \<open>The nearest heading as the specification words it\<close>

text \<open>
  A line is a heading if, after trimming white space, it starts with one or more
  \<^verbatim>\<open>#\<close>. Its text is the line with the leading run of \<^verbatim>\<open>#\<close> and the white
  space after it removed, then trimmed. The nearest heading is the first heading met
  when the lines are read from the cursor line down to line 0.
\<close>

definition spec_is_heading :: "string \<Rightarrow> bool" where
  "spec_is_heading l = (case trim l of [] \<Rightarrow> False | c # _ \<Rightarrow> c = CHR ''#'')"

definition spec_heading_text :: "string \<Rightarrow> string" where
  "spec_heading_text l = trim (dropWhile is_space (dropWhile is_hash (trim l)))"

definition spec_resolveNearestHeading :: "string list \<Rightarrow> nat \<Rightarrow> string option" where
  "spec_resolveNearestHeading lines cursorLine =
     map_option spec_heading_text (find spec_is_heading (rev (take (Suc cursorLine) lines)))"

section \<open>Notions used to state the properties\<close>

text \<open>
  A line that starts with one or more \<^verbatim>\<open>#\<close> followed by a white space character,
  and a line that is nothing but a run of \<^verbatim>\<open>#\<close>.
\<close>

definition hash_space_heading :: "string \<Rightarrow> bool" where
  "hash_space_heading l =
     (takeWhile is_hash l \<noteq> [] \<and>
      (case dropWhile is_hash l of [] \<Rightarrow> False | w # _ \<Rightarrow> is_space w))"

definition bare_hashes :: "string \<Rightarrow> bool" where
  "bare_hashes l = (l \<noteq> [] \<and> list_all is_hash l)"

text \<open>
  A replacement text on which \<open>get_substitution\<close> has an effect: it contains a dollar
  sign followed by \<^verbatim>\<open>$\<close>, \<^verbatim>\<open>&\<close>, a backquote or a quote. A placeholder: a
  text that starts with a dollar sign and has no other.
\<close>

fun has_dollar_pattern :: "string \<Rightarrow> bool" where
  "has_dollar_pattern [] = False"
| "has_dollar_pattern [c] = False"
| "has_dollar_pattern (c # d # r) =
     ((c = CHR ''$'' \<and> d \<in> set [CHR ''$'', CHR ''&'', CHR 0x60, CHR 0x27])
      \<or> has_dollar_pattern (d # r))"

definition placeholder :: "string \<Rightarrow> bool" where
  "placeholder p = (case p of [] \<Rightarrow> False | c # q \<Rightarrow> c = CHR ''$'' \<and> CHR ''$'' \<notin> set q)"

section \<open>Trimming and the heading text\<close>

lemma startsWith_hash: "startsWith s ''#'' = (case s of [] \<Rightarrow> False | c # _ \<Rightarrow> c = CHR ''#'')"
  by (cases s) (auto simp: startsWith_def)

lemma trim_last: "trim s \<noteq> [] \<Longrightarrow> \<not> is_space (last (trim s))"
  unfolding trim_def by (simp add: last_rev hd_dropWhile)

lemma trim_hd: "trim s \<noteq> [] \<Longrightarrow> \<not> is_space (hd (trim s))"
proof -
  assume a: "trim s \<noteq> []"
  let ?d = "dropWhile is_space s"
  have d: "?d \<noteq> []"
  proof
    assume "?d = []"
    then have "trim s = []" by (simp add: trim_def del: dropWhile_eq_Nil_conv)
    with a show False by simp
  qed
  then have h: "\<not> is_space (hd ?d)" by (rule hd_dropWhile)
  have "rev (dropWhile is_space (rev ?d)) \<noteq> []" using a by (simp add: trim_def)
  obtain x xs where dx: "?d = x # xs" using d by (cases ?d) auto
  have "trim s = rev (dropWhile is_space (rev xs @ [x]))" by (simp add: trim_def dx)
  also have "\<dots> = x # rev (dropWhile is_space (rev xs)) \<or> \<dots> = [x]"
    using h dx by (auto simp: dropWhile_append split: if_splits)
  finally show ?thesis using h dx by auto
qed

lemma trim_fixed: "s = [] \<or> (\<not> is_space (hd s) \<and> \<not> is_space (last s)) \<Longrightarrow> trim s = s"
proof (cases s)
  case Nil then show ?thesis by (simp add: trim_def)
next
  case (Cons x xs)
  assume "s = [] \<or> (\<not> is_space (hd s) \<and> \<not> is_space (last s))"
  with Cons have h: "\<not> is_space x" and l: "\<not> is_space (last s)" by auto
  have 1: "dropWhile is_space s = s" using h Cons by simp
  have "rev s \<noteq> []" using Cons by simp
  moreover have "hd (rev s) = last s" using Cons by (simp add: hd_rev)
  ultimately have "dropWhile is_space (rev s) = rev s" using l by (simp add: dropWhile_eq_self_iff)
  then show ?thesis by (simp add: trim_def 1)
qed

lemma trim_trim: "trim (trim s) = trim s"
  by (rule trim_fixed) (use trim_hd trim_last in blast)

lemma strip_trimmed:
  assumes "trim t = t"
  shows "trim (dropWhile is_space (dropWhile is_hash t)) = dropWhile is_space (dropWhile is_hash t)"
proof (rule trim_fixed, cases "dropWhile is_space (dropWhile is_hash t) = []")
  case True then show "dropWhile is_space (dropWhile is_hash t) = [] \<or>
    (\<not> is_space (hd (dropWhile is_space (dropWhile is_hash t))) \<and> \<not> is_space (last (dropWhile is_space (dropWhile is_hash t))))" by simp
next
  case False
  let ?r = "dropWhile is_space (dropWhile is_hash t)"
  have h: "\<not> is_space (hd ?r)" using False by (rule hd_dropWhile)
  have "\<exists>p. t = p @ ?r"
    by (metis takeWhile_dropWhile_id append.assoc)
  then obtain p where p: "t = p @ ?r" ..
  then have "last t = last ?r" using False by (metis last_appendR)
  moreover have "t \<noteq> []" using p False by auto
  then have "\<not> is_space (last t)" using trim_last [of t] assms by simp
  ultimately show "?r = [] \<or> (\<not> is_space (hd ?r) \<and> \<not> is_space (last ?r))" using h by simp
qed

lemma strip_hashes_trim: "startsWith (trim l) ''#'' \<Longrightarrow> strip_hashes (trim l) = spec_heading_text l"
  by (simp add: strip_hashes_def spec_heading_text_def strip_trimmed trim_trim)

lemma nearest_heading_spec:
  "i < length lines \<Longrightarrow> nearest_heading lines i = Inr (spec_resolveNearestHeading lines i)"
proof (induction i)
  case 0
  then show ?case
    by (cases lines) (auto simp: nearest_heading.simps spec_resolveNearestHeading_def Let_def
        spec_is_heading_def startsWith_hash strip_hashes_trim split: list.splits)
next
  case (Suc i)
  then have "take (Suc (Suc i)) lines = take (Suc i) lines @ [lines ! Suc i]"
    by (simp add: take_Suc_conv_app_nth)
  with Suc show ?case
    by (subst nearest_heading.simps)
      (auto simp: spec_resolveNearestHeading_def Let_def
        spec_is_heading_def startsWith_hash strip_hashes_trim split: list.splits)
qed


lemma nearest_heading_skip:
  "i \<le> c \<Longrightarrow> c < length lines \<Longrightarrow>
   (\<And>j. i < j \<Longrightarrow> j \<le> c \<Longrightarrow> \<not> startsWith (trim (lines ! j)) ''#'') \<Longrightarrow>
   nearest_heading lines c = nearest_heading lines i"
proof (induction c)
  case 0
  then show ?case by simp
next
  case (Suc c)
  show ?case
  proof (cases "i = Suc c")
    case True
    then show ?thesis by simp
  next
    case False
    with Suc.prems have le: "i \<le> c" and lt: "c < length lines" by simp_all
    have "\<not> startsWith (trim (lines ! Suc c)) ''#''"
      using Suc.prems(3) [of "Suc c"] le by simp
    then have "nearest_heading lines (Suc c) = nearest_heading lines c"
      using Suc.prems(2) by (subst nearest_heading.simps) (simp add: Let_def)
    also have "\<dots> = nearest_heading lines i"
      using le lt Suc.prems(3) by (intro Suc.IH) simp_all
    finally show ?thesis .
  qed
qed

lemma nearest_heading_here:
  "i < length lines \<Longrightarrow> startsWith (trim (lines ! i)) ''#'' \<Longrightarrow>
   nearest_heading lines i = Inr (Some (strip_hashes (trim (lines ! i))))"
  by (subst nearest_heading.simps) (simp add: Let_def)

lemma nearest_heading_Some:
  "nearest_heading lines i = Inr (Some t) \<Longrightarrow>
   \<exists>j\<le>i. startsWith (trim (lines ! j)) ''#'' \<and> t = strip_hashes (trim (lines ! j))"
proof (induction i)
  case 0
  then show ?case
    by (subst (asm) nearest_heading.simps) (auto simp: Let_def split: if_splits)
next
  case (Suc i)
  from Suc.prems show ?case
  proof (subst (asm) nearest_heading.simps, simp add: Let_def split: if_splits)
    assume "startsWith (trim (lines ! Suc i)) ''#''" and "strip_hashes (trim (lines ! Suc i)) = t"
    then show ?thesis by blast
  next
    assume "nearest_heading lines i = Inr (Some t)"
    then obtain j where "j \<le> i" "startsWith (trim (lines ! j)) ''#''" "t = strip_hashes (trim (lines ! j))"
      using Suc.IH by blast
    then show ?thesis by (intro exI [of _ j]) simp
  qed
qed

lemma trim_hashes_ws:
  assumes "0 < k" and "\<forall>c\<in>set ws. is_space c"
  shows "trim (replicate k (CHR ''#'') @ ws) = replicate k (CHR ''#'')"
proof -
  have ns: "\<not> is_space (CHR ''#'')" by (simp add: is_space_def)
  obtain k' where k: "k = Suc k'" using assms(1) by (cases k) auto
  have 1: "dropWhile is_space (replicate k (CHR ''#'') @ ws) = replicate k (CHR ''#'') @ ws"
    using ns by (simp add: k)
  have 2: "dropWhile is_space (rev ws @ replicate k (CHR ''#'')) = dropWhile is_space (replicate k (CHR ''#''))"
    using assms(2) by (intro dropWhile_append2) simp
  have 3: "dropWhile is_space (replicate k (CHR ''#'')) = replicate k (CHR ''#'')"
    using ns by (simp add: k)
  show ?thesis using ns by (simp add: trim_def 1 2 3)
qed

lemma strip_hashes_only: "0 < k \<Longrightarrow> strip_hashes (replicate k (CHR ''#'')) = []"
  by (cases k) (auto simp: strip_hashes_def startsWith_def is_hash_def is_space_def dropWhile_replicate)

section \<open>Matches of the heading pattern\<close>

lemma heading_at_hash: "heading_at s = Some (m, r) \<Longrightarrow> startsWith m ''#''"
proof -
  assume a: "heading_at s = Some (m, r)"
  then obtain x xs where "takeWhile is_hash s = x # xs" and m: "take 1 m = [x]"
    by (cases "takeWhile is_hash s") (auto simp: heading_at_def Let_def split: list.splits if_splits)
  then have "x \<in> set (takeWhile is_hash s)" by simp
  then have "is_hash x" by (rule set_takeWhileD [THEN conjunct2])
  with m show ?thesis by (simp add: startsWith_def is_hash_def)
qed

lemma match_headings_from_hash:
  "m \<in> set (match_headings_from bol s) \<Longrightarrow> startsWith m ''#''"
proof (induction bol s rule: match_headings_from.induct)
  case (1 bol)
  then show ?case by simp
next
  case (2 bol c cs)
  show ?case
  proof (cases "if bol then heading_at (c # cs) else None")
    case None
    with 2 show ?thesis by simp
  next
    case (Some a)
    obtain m' rest where a: "a = (m', rest)" by (cases a)
    from Some a have h: "heading_at (c # cs) = Some (m', rest)" by (simp split: if_splits)
    from "2.prems" Some a have "m = m' \<or> m \<in> set (match_headings_from (is_line_terminator (last m')) rest)"
      by simp
    then show ?thesis
      using heading_at_hash [OF h] "2.IH"(2) [OF Some a [symmetric]] by blast
  qed
qed

lemma searchHeadings_results:
  "el \<in> set (results (searchHeadings files m)) \<longleftrightarrow>
   (\<exists>f content heading. (f, content) \<in> set files \<and> heading \<in> set (match_headings content) \<and>
      includes_str (toLowerCase heading) (query m) \<and> el = result_for f heading)"
  by (auto simp: searchHeadings_def)

lemma not_space_hash: "is_hash c \<Longrightarrow> \<not> is_space c"
  by (simp add: is_hash_def is_space_def)

lemma hash_space_heading_iff:
  "hash_space_heading l \<longleftrightarrow>
   (\<exists>k w r. 0 < k \<and> l = replicate k (CHR ''#'') @ w # r \<and> is_space w)"
proof
  assume h: "hash_space_heading l"
  then obtain w r where d: "dropWhile is_hash l = w # r" and w: "is_space w"
    by (auto simp: hash_space_heading_def split: list.splits)
  have "\<forall>x\<in>set (takeWhile is_hash l). x = CHR ''#''"
    by (auto dest: set_takeWhileD simp: is_hash_def)
  then have t: "takeWhile is_hash l = replicate (length (takeWhile is_hash l)) (CHR ''#'')"
    by (simp add: replicate_length_same)
  have "l = takeWhile is_hash l @ dropWhile is_hash l" by simp
  with d t have "l = replicate (length (takeWhile is_hash l)) (CHR ''#'') @ w # r" by simp
  moreover have "0 < length (takeWhile is_hash l)"
    using h by (simp add: hash_space_heading_def)
  ultimately show "\<exists>k w r. 0 < k \<and> l = replicate k (CHR ''#'') @ w # r \<and> is_space w"
    using w by blast
next
  assume "\<exists>k w r. 0 < k \<and> l = replicate k (CHR ''#'') @ w # r \<and> is_space w"
  then obtain k w r where k: "0 < k" and l: "l = replicate k (CHR ''#'') @ w # r" and w: "is_space w"
    by blast
  have nh: "\<not> is_hash w" using w not_space_hash by blast
  have "takeWhile is_hash l = replicate k (CHR ''#'')"
    unfolding l using nh by (subst takeWhile_append2) (auto simp: is_hash_def)
  moreover have "dropWhile is_hash l = w # r"
    unfolding l using nh by (subst dropWhile_append2) (auto simp: is_hash_def)
  ultimately show "hash_space_heading l"
    using k w by (simp add: hash_space_heading_def)
qed

lemma skip_line:
  "\<forall>c\<in>set l. \<not> is_line_terminator c \<Longrightarrow>
   match_headings_from False (l @ CHR 0x0A # rest) = match_headings_from True rest"
  by (induction l) (simp_all add: is_line_terminator_def)

lemma skip_last_line:
  "\<forall>c\<in>set l. \<not> is_line_terminator c \<Longrightarrow> match_headings_from False l = []"
  by (induction l) simp_all

lemma heading_at_line:
  assumes nt: "\<forall>c\<in>set l. \<not> is_line_terminator c" and nb: "\<not> bare_hashes l"
  shows "heading_at (l @ CHR 0x0A # rest) =
           (if hash_space_heading l then Some (l, CHR 0x0A # rest) else None)"
proof (cases "l = []")
  case True
  then show ?thesis
    by (simp add: heading_at_def hash_space_heading_def is_hash_def)
next
  case False
  with nb obtain x where x: "x \<in> set l" "\<not> is_hash x"
    by (auto simp: bare_hashes_def list_all_iff)
  then have t: "takeWhile is_hash (l @ CHR 0x0A # rest) = takeWhile is_hash l"
    and d: "dropWhile is_hash (l @ CHR 0x0A # rest) = dropWhile is_hash l @ CHR 0x0A # rest"
    by (simp_all add: takeWhile_append1 dropWhile_append1)
  from x have "dropWhile is_hash l \<noteq> []"
    by (auto simp: dropWhile_eq_Nil_conv)
  then obtain w r where wr: "dropWhile is_hash l = w # r"
    by (cases "dropWhile is_hash l") auto
  have "set r \<subseteq> set l"
    by (metis wr set_dropWhileD set_subset_Cons subsetI subset_code(1) in_mono list.set_intros(2))
  then have r: "\<forall>c\<in>set r. \<not> is_line_terminator c" using nt by blast
  have lt: "is_line_terminator (CHR 0x0A)" by (simp add: is_line_terminator_def)
  have tr: "takeWhile (\<lambda>c. \<not> is_line_terminator c) (r @ CHR 0x0A # rest) = r"
    using r lt by (subst takeWhile_append2) auto
  have dr: "dropWhile (\<lambda>c. \<not> is_line_terminator c) (r @ CHR 0x0A # rest) = CHR 0x0A # rest"
    using r lt by (subst dropWhile_append2) auto
  have l: "takeWhile is_hash l @ w # r = l"
    using wr [symmetric] by simp
  show ?thesis
    unfolding heading_at_def t d wr Let_def hash_space_heading_def
    by (simp add: tr dr l)
qed

lemma heading_at_last_line:
  assumes nt: "\<forall>c\<in>set l. \<not> is_line_terminator c"
  shows "heading_at l = (if hash_space_heading l then Some (l, []) else None)"
proof (cases "dropWhile is_hash l")
  case Nil
  show ?thesis
    unfolding heading_at_def hash_space_heading_def Nil Let_def by simp
next
  case (Cons w r)
  have "set r \<subseteq> set l"
    by (metis Cons set_dropWhileD set_subset_Cons subsetI in_mono list.set_intros(2))
  then have r: "\<forall>c\<in>set r. \<not> is_line_terminator c" using nt by blast
  have tr: "takeWhile (\<lambda>c. \<not> is_line_terminator c) r = r"
    using r by (simp add: takeWhile_eq_all_conv)
  have dr: "dropWhile (\<lambda>c. \<not> is_line_terminator c) r = []"
    using r by (simp add: dropWhile_eq_Nil_conv)
  have l: "takeWhile is_hash l @ w # r = l"
    using Cons [symmetric] by simp
  show ?thesis
    unfolding heading_at_def Cons Let_def hash_space_heading_def
    by (simp add: tr dr l)
qed

lemma match_line:
  assumes nt: "\<forall>c\<in>set l. \<not> is_line_terminator c" and nb: "\<not> bare_hashes l"
  shows "match_headings_from True (l @ CHR 0x0A # rest) =
           (if hash_space_heading l then [l] else []) @ match_headings_from True rest"
proof (cases l)
  case Nil
  then show ?thesis
    by (simp add: heading_at_def hash_space_heading_def is_hash_def is_line_terminator_def)
next
  case (Cons c cs)
  have h: "heading_at (c # cs @ CHR 0x0A # rest) =
     (if hash_space_heading l then Some (l, CHR 0x0A # rest) else None)"
    using heading_at_line [OF nt nb, of rest] Cons by simp
  have c: "\<not> is_line_terminator c" and cs: "\<forall>c\<in>set cs. \<not> is_line_terminator c"
    using nt Cons by simp_all
  have la: "\<not> is_line_terminator (last l)"
    using nt Cons last_in_set [of l] by auto
  show ?thesis
  proof (cases "hash_space_heading l")
    case True
    have "match_headings_from True (c # cs @ CHR 0x0A # rest) =
            l # match_headings_from False (CHR 0x0A # rest)"
      using h True la by simp
    also have "match_headings_from False (CHR 0x0A # rest) = match_headings_from True rest"
      using skip_line [of "[]" rest] by simp
    finally show ?thesis using True Cons by simp
  next
    case False
    have "match_headings_from True (c # cs @ CHR 0x0A # rest) =
            match_headings_from False (cs @ CHR 0x0A # rest)"
      using h False c by simp
    also have "\<dots> = match_headings_from True rest"
      using cs by (rule skip_line)
    finally show ?thesis using False Cons by simp
  qed
qed

lemma match_last_line:
  assumes nt: "\<forall>c\<in>set l. \<not> is_line_terminator c"
  shows "match_headings_from True l = (if hash_space_heading l then [l] else [])"
proof (cases l)
  case Nil
  then show ?thesis by (simp add: hash_space_heading_def)
next
  case (Cons c cs)
  have h: "heading_at (c # cs) = (if hash_space_heading l then Some (l, []) else None)"
    using heading_at_last_line [OF nt] Cons by simp
  have c: "\<not> is_line_terminator c" and cs: "\<forall>c\<in>set cs. \<not> is_line_terminator c"
    using nt Cons by simp_all
  show ?thesis
    using h c skip_last_line [OF cs] Cons by simp
qed

lemma match_headings_lines:
  "\<forall>l\<in>set ls. (\<forall>c\<in>set l. \<not> is_line_terminator c) \<and> \<not> bare_hashes l \<Longrightarrow>
   match_headings_from True (join_nl ls) = filter hash_space_heading ls"
proof (induction ls rule: join_nl.induct)
  case 1
  then show ?case by simp
next
  case (2 l)
  then show ?case by (simp add: match_last_line)
next
  case (3 l l' ls)
  then show ?case by (simp add: match_line)
qed

section \<open>Paths\<close>

lemma lastIndexOf_none: "c \<notin> set s \<Longrightarrow> lastIndexOf s c = - 1"
proof -
  assume "c \<notin> set s"
  then have "takeWhile (\<lambda>x. x \<noteq> c) (rev s) = rev s"
    by (auto simp: takeWhile_eq_all_conv)
  then have "length (takeWhile (\<lambda>x. x \<noteq> c) (rev s)) = length s"
    by (simp del: takeWhile_eq_all_conv)
  then show ?thesis by (simp only: lastIndexOf_def Let_def simp_thms if_True)
qed

lemma lastIndexOf_split: "c \<notin> set seg \<Longrightarrow> lastIndexOf (pre @ c # seg) c = int (length pre)"
proof -
  assume a: "c \<notin> set seg"
  have "takeWhile (\<lambda>x. x \<noteq> c) (rev (pre @ c # seg)) = rev seg"
    using a by (auto simp: takeWhile_tail)
  then show ?thesis by (simp add: lastIndexOf_def Let_def)
qed

lemma split_last_sep:
  assumes "c \<in> set s"
  shows "\<exists>pre seg. s = pre @ c # seg \<and> c \<notin> set seg"
  using assms by (rule split_list_last)

lemma substring_0: "0 \<le> b \<Longrightarrow> substring s 0 b = take (nat b) s"
  by (auto simp: substring_def Let_def min_def max_def)

lemma substring_0_neg: "b < 0 \<Longrightarrow> substring s 0 b = []"
  by (simp add: substring_def Let_def)

lemma substring_from_nat: "substring_from s (int n) = drop n s"
  by (auto simp: substring_from_def substring_def Let_def min_def max_def)

lemma strip_md_split:
  assumes "CHR ''/'' \<notin> set seg"
  shows "strip_md (pre @ CHR ''/'' # seg) = pre @ CHR ''/'' # strip_md seg"
proof (cases "3 \<le> length seg")
  case True
  let ?q = "pre @ [CHR ''/'']"
  have p: "pre @ CHR ''/'' # seg = ?q @ seg" by simp
  have l: "length (?q @ seg) - 3 = length ?q + (length seg - 3)"
    using True by simp
  have d: "drop (length (?q @ seg) - 3) (?q @ seg) = drop (length seg - 3) seg"
    unfolding l by simp
  have t: "take (length (?q @ seg) - 3) (?q @ seg) = ?q @ take (length seg - 3) seg"
    unfolding l by simp
  have "strip_md (?q @ seg) = ?q @ strip_md seg"
    unfolding strip_md_def d t using True by simp
  then show ?thesis by simp
next
  case False
  let ?p = "pre @ CHR ''/'' # seg"
  have "drop (length ?p - 3) ?p \<noteq> ''.md''"
  proof
    assume e: "drop (length ?p - 3) ?p = ''.md''"
    have "CHR ''/'' \<in> set (drop (length ?p - 3) ?p)"
      using False by (auto simp: drop_Cons' )
    with e show False by simp
  qed
  moreover have "\<not> (3 \<le> length seg \<and> drop (length seg - 3) seg = ''.md'')"
    using False by simp
  ultimately show ?thesis by (auto simp: strip_md_def)
qed

lemma click_fileDir_split:
  assumes "CHR ''/'' \<notin> set seg"
  shows "click_fileDir (pre @ CHR ''/'' # seg) (pre @ CHR ''/'' # seg) = pre"
  using assms by (simp add: click_fileDir_def lastIndexOf_split strip_md_split substring_0)

lemma click_fileDir_none: "CHR ''/'' \<notin> set p \<Longrightarrow> click_fileDir p p = []"
  by (simp add: click_fileDir_def lastIndexOf_none substring_0_neg)

lemma set_strip_md: "set (strip_md s) \<subseteq> set s"
  by (auto simp: strip_md_def dest: in_set_takeD)

lemma click_fileBasename_split:
  assumes "CHR ''/'' \<notin> set seg"
  shows "click_fileBasename (pre @ CHR ''/'' # seg) = strip_md seg"
proof -
  have "CHR ''/'' \<notin> set (strip_md seg)" using assms set_strip_md by blast
  then have "lastIndexOf (pre @ CHR ''/'' # strip_md seg) CHR ''/'' + 1 = int (Suc (length pre))"
    by (simp add: lastIndexOf_split)
  then show ?thesis
    using assms by (simp add: click_fileBasename_def strip_md_split substring_from_nat del: of_nat_Suc)
qed

lemma click_fileBasename_none: "CHR ''/'' \<notin> set p \<Longrightarrow> click_fileBasename p = strip_md p"
proof -
  assume a: "CHR ''/'' \<notin> set p"
  then have "CHR ''/'' \<notin> set (strip_md p)" using set_strip_md by blast
  then have "lastIndexOf (strip_md p) CHR ''/'' + 1 = int 0" by (simp add: lastIndexOf_none)
  then show ?thesis by (simp add: click_fileBasename_def substring_from_nat del: of_nat_0)
qed

lemma last_sep_unique:
  fixes pre :: string
  assumes "pre @ c # seg = pre' @ c # seg'" and "c \<notin> set seg" and "c \<notin> set seg'"
  shows "pre = pre' \<and> seg = seg'"
proof -
  have "lastIndexOf (pre @ c # seg) c = int (length pre)"
    using assms(2) by (rule lastIndexOf_split)
  moreover have "lastIndexOf (pre' @ c # seg') c = int (length pre')"
    using assms(3) by (rule lastIndexOf_split)
  ultimately have "length pre = length pre'"
    using assms(1) by simp
  then show ?thesis using assms(1) by simp
qed

lemma click_parts:
  "(CHR ''/'' \<in> set p \<longrightarrow>
      (\<exists>seg. p = click_fileDir p p @ CHR ''/'' # seg \<and> CHR ''/'' \<notin> set seg \<and>
             click_fileBasename p = strip_md seg)) \<and>
   (CHR ''/'' \<notin> set p \<longrightarrow> click_fileDir p p = [] \<and> click_fileBasename p = strip_md p)"
proof (intro conjI impI)
  assume "CHR ''/'' \<in> set p"
  from split_last_sep [OF this] obtain pre seg
    where s: "p = pre @ CHR ''/'' # seg" "CHR ''/'' \<notin> set seg"
    by (elim exE conjE)
  have "click_fileDir (pre @ CHR ''/'' # seg) (pre @ CHR ''/'' # seg) = pre"
    using s(2) by (rule click_fileDir_split)
  moreover have "click_fileBasename (pre @ CHR ''/'' # seg) = strip_md seg"
    using s(2) by (rule click_fileBasename_split)
  ultimately have "p = click_fileDir p p @ CHR ''/'' # seg \<and> CHR ''/'' \<notin> set seg \<and>
                   click_fileBasename p = strip_md seg"
    using s by (simp only: simp_thms)
  then show "\<exists>seg. p = click_fileDir p p @ CHR ''/'' # seg \<and> CHR ''/'' \<notin> set seg \<and>
                  click_fileBasename p = strip_md seg" ..
next
  assume "CHR ''/'' \<notin> set p"
  then show "click_fileDir p p = []" by (rule click_fileDir_none)
next
  assume "CHR ''/'' \<notin> set p"
  then show "click_fileBasename p = strip_md p" by (rule click_fileBasename_none)
qed

section \<open>Replacing placeholders\<close>

lemma get_substitution_literal:
  "\<not> has_dollar_pattern v \<Longrightarrow> get_substitution m b a v = v"
  by (induction m b a v rule: get_substitution.induct) auto

lemma replaceAll_from_seen:
  "\<not> has_dollar_pattern v \<Longrightarrow> replaceAll_from pat v seen s = replaceAll_from pat v seen' s"
proof (induction s arbitrary: seen seen' rule: length_induct)
  case (1 s)
  note lit = get_substitution_literal [OF "1.prems"]
  show ?case
  proof (cases s)
    case Nil
    then show ?thesis by (simp add: lit)
  next
    case (Cons c cs)
    have "length cs < length s" using Cons by simp
    then have tl: "replaceAll_from pat v (seen @ [c]) cs = replaceAll_from pat v (seen' @ [c]) cs"
      using "1.IH" "1.prems" by blast
    show ?thesis
    proof (cases "pat \<noteq> [] \<and> startsWith (c # cs) pat")
      case True
      then have "length (drop (length pat) (c # cs)) < length s"
        using Cons by (cases pat) simp_all
      then have "replaceAll_from pat v (seen @ pat) (drop (length pat) (c # cs))
               = replaceAll_from pat v (seen' @ pat) (drop (length pat) (c # cs))"
        using "1.IH" "1.prems" by blast
      then show ?thesis using True by (simp add: Cons lit)
    next
      case False
      then show ?thesis using tl by (auto simp: Cons lit)
    qed
  qed
qed

lemma replaceAll_Nil: "pat \<noteq> [] \<Longrightarrow> replaceAll [] pat v = []"
  by (simp add: replaceAll_def)

lemma replaceAll_match:
  assumes lit: "\<not> has_dollar_pattern v" and p: "pat \<noteq> []" and s: "startsWith s pat"
  shows "replaceAll s pat v = v @ replaceAll (drop (length pat) s) pat v"
proof -
  from p s obtain c cs where c: "s = c # cs"
    by (cases s) (auto simp: startsWith_def)
  have "replaceAll_from pat v [] (c # cs)
          = get_substitution pat [] (drop (length pat) (c # cs)) v
              @ replaceAll_from pat v ([] @ pat) (drop (length pat) (c # cs))"
    using p s [unfolded c] by (simp only: replaceAll_from.simps if_True if_False)
  also have "get_substitution pat [] (drop (length pat) (c # cs)) v = v"
    using lit by (rule get_substitution_literal)
  also have "replaceAll_from pat v ([] @ pat) (drop (length pat) (c # cs))
          = replaceAll_from pat v [] (drop (length pat) (c # cs))"
    using lit by (rule replaceAll_from_seen)
  finally show ?thesis by (simp only: replaceAll_def c)
qed

lemma replaceAll_skip:
  assumes lit: "\<not> has_dollar_pattern v" and p: "pat \<noteq> []" and s: "\<not> startsWith (c # cs) pat"
  shows "replaceAll (c # cs) pat v = c # replaceAll cs pat v"
proof -
  have "replaceAll_from pat v [] (c # cs) = c # replaceAll_from pat v ([] @ [c]) cs"
    using p s by (simp only: replaceAll_from.simps if_True if_False)
  also have "replaceAll_from pat v ([] @ [c]) cs = replaceAll_from pat v [] cs"
    using lit by (rule replaceAll_from_seen)
  finally show ?thesis by (simp only: replaceAll_def)
qed

lemma placeholder_first: "placeholder p \<Longrightarrow> startsWith (x # s) p \<Longrightarrow> x = CHR ''$''"
  by (auto simp: placeholder_def startsWith_def split: list.splits)

lemma placeholder_not_Nil: "placeholder p \<Longrightarrow> p \<noteq> []"
  by (auto simp: placeholder_def)

text \<open>Text without a dollar sign is copied.\<close>

lemma replaceAll_copy:
  "\<not> has_dollar_pattern v \<Longrightarrow> placeholder p \<Longrightarrow> CHR ''$'' \<notin> set b \<Longrightarrow>
   replaceAll (b @ c) p v = b @ replaceAll c p v"
proof (induction b)
  case Nil
  then show ?case by simp
next
  case (Cons x b)
  then have "\<not> startsWith (x # b @ c) p"
    using placeholder_first by fastforce
  then show ?case
    using Cons by (simp add: replaceAll_skip placeholder_not_Nil)
qed

text \<open>An occurrence of a placeholder never runs into the dollar sign of a later block.\<close>

lemma placeholder_no_straddle:
  assumes p: "placeholder p" and a: "a \<noteq> []" and s: "startsWith (a @ CHR ''$'' # r) p"
  shows "length p \<le> length a"
proof (rule ccontr)
  assume "\<not> length p \<le> length a"
  then have l: "length a < length p" by simp
  from p obtain q where q: "p = CHR ''$'' # q" "CHR ''$'' \<notin> set q"
    by (auto simp: placeholder_def split: list.splits)
  from s have "take (length p) (a @ CHR ''$'' # r) ! length a = p ! length a"
    by (simp add: startsWith_def)
  then have "p ! length a = CHR ''$''"
    using l by (simp add: nth_append)
  moreover obtain n where n: "length a = Suc n"
    using a by (cases a) simp_all
  ultimately have "q ! n = CHR ''$''"
    using q by simp
  moreover have "n < length q"
    using l n q by simp
  ultimately have "CHR ''$'' \<in> set q"
    using nth_mem by fastforce
  with q show False by simp
qed

lemma startsWith_append:
  "length p \<le> length a \<Longrightarrow> startsWith (a @ s) p = startsWith a p"
  by (simp add: startsWith_def)

lemma startsWith_length: "startsWith a p \<Longrightarrow> length p \<le> length a"
proof -
  assume "startsWith a p"
  then have "length (take (length p) a) = length p"
    by (simp only: startsWith_def)
  then show ?thesis by simp
qed

text \<open>The scan of a text splits at every dollar sign after which it resumes.\<close>

lemma replaceAll_block:
  assumes lit: "\<not> has_dollar_pattern v" and p: "placeholder p"
  shows "replaceAll (a @ CHR ''$'' # r) p v = replaceAll a p v @ replaceAll (CHR ''$'' # r) p v"
proof (induction a rule: length_induct)
  case (1 a)
  note ne = placeholder_not_Nil [OF p]
  show ?case
  proof (cases a)
    case Nil
    then show ?thesis by (simp add: replaceAll_Nil ne)
  next
    case (Cons x a')
    show ?thesis
    proof (cases "startsWith (a @ CHR ''$'' # r) p")
      case True
      then have le: "length p \<le> length a"
        using placeholder_no_straddle [OF p] Cons by blast
      then have sa: "startsWith a p" using True by (simp add: startsWith_append)
      have "length (drop (length p) a) < length a"
        using ne Cons by (cases p) simp_all
      then have ih: "replaceAll (drop (length p) a @ CHR ''$'' # r) p v
                   = replaceAll (drop (length p) a) p v @ replaceAll (CHR ''$'' # r) p v"
        using "1.IH" by blast
      have "replaceAll (a @ CHR ''$'' # r) p v
              = v @ replaceAll (drop (length p) (a @ CHR ''$'' # r)) p v"
        using lit ne True by (rule replaceAll_match)
      also have "drop (length p) (a @ CHR ''$'' # r) = drop (length p) a @ CHR ''$'' # r"
        using le by simp
      finally show ?thesis
        by (simp add: ih replaceAll_match [OF lit ne sa])
    next
      case False
      then have na: "\<not> startsWith a p"
        using startsWith_length startsWith_append by blast
      have "length a' < length a" using Cons by simp
      then have "replaceAll (a' @ CHR ''$'' # r) p v = replaceAll a' p v @ replaceAll (CHR ''$'' # r) p v"
        using "1.IH" by blast
      then show ?thesis
        using False na lit ne by (simp add: Cons replaceAll_skip)
    qed
  qed
qed


lemma replaceAll_insert:
  assumes lit: "\<not> has_dollar_pattern v" and p: "placeholder p"
  shows "replaceAll (a @ p @ c) p v = replaceAll a p v @ v @ replaceAll c p v"
proof -
  from p obtain q where q: "p = CHR ''$'' # q"
    by (auto simp: placeholder_def split: list.splits)
  have "replaceAll (a @ p @ c) p v = replaceAll a p v @ replaceAll (p @ c) p v"
    using replaceAll_block [OF lit p, of a "q @ c"] by (simp add: q)
  also have "replaceAll (p @ c) p v = v @ replaceAll (drop (length p) (p @ c)) p v"
    using lit placeholder_not_Nil [OF p] by (rule replaceAll_match) (simp add: startsWith_def)
  finally show ?thesis by simp
qed

lemma replaceAll_other:
  assumes lit: "\<not> has_dollar_pattern v" and p: "placeholder p" and b: "placeholder b"
    and d: "\<not> startsWith (b @ c) p"
  shows "replaceAll (a @ b @ c) p v = replaceAll a p v @ b @ replaceAll c p v"
proof -
  from b obtain q where q: "b = CHR ''$'' # q" "CHR ''$'' \<notin> set q"
    by (auto simp: placeholder_def split: list.splits)
  have "replaceAll (a @ b @ c) p v = replaceAll a p v @ replaceAll (b @ c) p v"
    using replaceAll_block [OF lit p, of a "q @ c"] by (simp add: q)
  also have "replaceAll (b @ c) p v = CHR ''$'' # replaceAll (q @ c) p v"
    using replaceAll_skip [OF lit placeholder_not_Nil [OF p], of "CHR ''$''" "q @ c"] d
    by (simp add: q)
  also have "replaceAll (q @ c) p v = q @ replaceAll c p v"
    using lit p q(2) by (rule replaceAll_copy)
  finally show ?thesis by (simp add: q)
qed

lemma placeholders:
  "placeholder ''${fileDir}''" "placeholder ''${fileBasename}''" "placeholder ''${headingText}''"
  by (simp_all add: placeholder_def)

lemma placeholders_differ:
  "\<not> startsWith (''${headingText}'' @ c) ''${fileDir}''"
  "\<not> startsWith (''${headingText}'' @ c) ''${fileBasename}''"
  "\<not> startsWith (''${fileBasename}'' @ c) ''${fileDir}''"
  by (simp_all add: startsWith_def)

lemma toLowerCase_Nil: "toLowerCase s = [] \<longleftrightarrow> s = []"
  by (simp add: toLowerCase_def)

section \<open>The copy flow on an example\<close>

text \<open>
  C1. For the document at path \<open>folder/note.md\<close> with basename \<open>note\<close> and the lines
  \<open># Intro\<close>, \<open>text\<close>, \<open>cursor-here\<close>, the cursor on line 2 and the default link
  format, \<open>copyLink\<close> hands exactly \<open>[[folder/note#Intro|Intro]]\<close> to the clipboard,
  whatever the state of the host.
\<close>

theorem copyLink_example:
  "copyLink DEFAULT_SETTINGS
     \<lparr>editor_value = join_nl [''# Intro'', ''text'', ''cursor-here''],
      cursor_line = 2,
      view_file = Some \<lparr>path = ''folder/note.md'', basename = ''note''\<rparr>\<rparr> h
   = Inr (writeText ''[[folder/note#Intro|Intro]]'' h) \<and>
   clipboard (writeText ''[[folder/note#Intro|Intro]]'' h)
   = clipboard h @ [''[[folder/note#Intro|Intro]]'']"
proof -
  have 1: "nearest_heading (split_nl (join_nl [''# Intro'', ''text'', ''cursor-here''])) 2
             = Inr (Some ''Intro'')"
    by code_simp
  have 2: "substring ''folder/note.md'' 0 (lastIndexOf ''folder/note.md'' CHR ''/'') = ''folder''"
    by code_simp
  have 3: "wiki_link (linkFormat DEFAULT_SETTINGS) ''folder'' ''note'' ''Intro''
             = ''[[folder/note#Intro|Intro]]''"
    by code_simp
  show ?thesis
    by (simp add: copyLink_def 1 [simplified] 2 3 writeText_def notice_def Let_def)
qed

section \<open>The nearest heading\<close>

text \<open>
  C5. With the cursor on a line of the document, the loop of \<open>copyLink\<close> returns what
  the scan of the specification returns: the text of the first heading among the
  lines from the cursor line down to line 0, the cursor line included. When no line
  of that range is a heading the loop ends with \<open>null\<close>, and \<open>copyLink\<close> shows the
  notice and writes nothing to the clipboard.
\<close>

theorem nearest_heading_scan:
  assumes "lines = split_nl (editor_value v)" and "cursor_line v < length lines"
  shows "nearest_heading lines (cursor_line v)
           = Inr (spec_resolveNearestHeading lines (cursor_line v)) \<and>
         ((\<forall>j\<le>cursor_line v. \<not> spec_is_heading (lines ! j)) \<longrightarrow>
            nearest_heading lines (cursor_line v) = Inr None \<and>
            copyLink st v h = Inr (notice ''No heading found above the current cursor position.'' h) \<and>
            clipboard (notice ''No heading found above the current cursor position.'' h) = clipboard h)"
proof (intro conjI impI)
  show eq: "nearest_heading lines (cursor_line v) = Inr (spec_resolveNearestHeading lines (cursor_line v))"
    using assms(2) by (rule nearest_heading_spec)
  assume none: "\<forall>j\<le>cursor_line v. \<not> spec_is_heading (lines ! j)"
  have "find spec_is_heading (rev (take (Suc (cursor_line v)) lines)) = None"
    unfolding find_None_iff
  proof
    assume "\<exists>x. x \<in> set (rev (take (Suc (cursor_line v)) lines)) \<and> spec_is_heading x"
    then obtain x where "x \<in> set (take (Suc (cursor_line v)) lines)" and x: "spec_is_heading x" by auto
    then obtain j where "j < Suc (cursor_line v)" "x = lines ! j"
      by (auto simp: in_set_conv_nth)
    with none x show False by auto
  qed
  then show n: "nearest_heading lines (cursor_line v) = Inr None"
    by (simp add: eq spec_resolveNearestHeading_def)
  then show "copyLink st v h = Inr (notice ''No heading found above the current cursor position.'' h)"
    using assms(1) by (simp add: copyLink_def)
  show "clipboard (notice ''No heading found above the current cursor position.'' h) = clipboard h"
    by (simp add: notice_def)
qed

theorem nearest_heading_scan_witness:
  "nearest_heading [''# A'', ''text'', ''## B'', ''more''] 3 = Inr (Some ''B'') \<and>
   copyLink DEFAULT_SETTINGS
     \<lparr>editor_value = join_nl [''text'', ''more''], cursor_line = 1, view_file = None\<rparr>
     \<lparr>notices = [], clipboard = [], replaced = [], console = [], clipboard_ok = True\<rparr>
   = Inr \<lparr>notices = [''No heading found above the current cursor position.''],
          clipboard = [], replaced = [], console = [], clipboard_ok = True\<rparr>"
proof -
  let ?a = "\<lparr>editor_value = join_nl [''# A'', ''text'', ''## B'', ''more''],
             cursor_line = 3, view_file = None\<rparr>"
  let ?b = "\<lparr>editor_value = join_nl [''text'', ''more''], cursor_line = 1, view_file = None\<rparr>"
  let ?h = "\<lparr>notices = [], clipboard = [], replaced = [], console = [], clipboard_ok = True\<rparr>"
  have a: "[''# A'', ''text'', ''## B'', ''more''] = split_nl (editor_value ?a)"
    by (simp add: split_nl_def)
  have a': "cursor_line ?a < length [''# A'', ''text'', ''## B'', ''more'']"
    by simp
  have ra: "spec_resolveNearestHeading [''# A'', ''text'', ''## B'', ''more''] 3 = Some ''B''"
    by code_simp
  have b: "[''text'', ''more''] = split_nl (editor_value ?b)"
    by (simp add: split_nl_def)
  have b': "cursor_line ?b < length [''text'', ''more'']"
    by simp
  have nb: "\<forall>j\<le>cursor_line ?b. \<not> spec_is_heading ([''text'', ''more''] ! j)"
    by (simp add: le_Suc_eq spec_is_heading_def trim_def is_space_def)
  from nearest_heading_scan [OF a a', of DEFAULT_SETTINGS ?h]
    nearest_heading_scan [OF b b', of DEFAULT_SETTINGS ?h] nb ra
  show ?thesis by (simp add: notice_def)
qed

text \<open>
  C9. When the nearest heading line at or above the cursor is a run of \<^verbatim>\<open>#\<close>
  followed by white space only, its text is empty and \<open>copyLink\<close> shows the notice of
  the missing heading and writes nothing to the clipboard, although that line is a
  heading.
\<close>

theorem copyLink_empty_heading:
  assumes "lines = split_nl (editor_value v)"
    and "i \<le> cursor_line v" and "cursor_line v < length lines"
    and "lines ! i = replicate k (CHR ''#'') @ ws" and "0 < k" and "\<forall>c\<in>set ws. is_space c"
    and "\<forall>j. i < j \<and> j \<le> cursor_line v \<longrightarrow> \<not> spec_is_heading (lines ! j)"
  shows "spec_is_heading (lines ! i) \<and>
         copyLink st v h = Inr (notice ''No heading found above the current cursor position.'' h) \<and>
         clipboard (notice ''No heading found above the current cursor position.'' h) = clipboard h"
proof -
  have t: "trim (lines ! i) = replicate k (CHR ''#'')"
    using assms(4-6) by (simp add: trim_hashes_ws)
  have hd: "startsWith (trim (lines ! i)) ''#''"
    using assms(5) by (cases k) (simp_all add: t startsWith_def)
  have "nearest_heading lines (cursor_line v) = nearest_heading lines i"
    using assms(2,3,7) by (intro nearest_heading_skip) (simp_all add: spec_is_heading_def startsWith_hash)
  also have "\<dots> = Inr (Some [])"
    using assms(2,3,5) hd by (simp add: nearest_heading_here t strip_hashes_only)
  finally have "copyLink st v h = Inr (notice ''No heading found above the current cursor position.'' h)"
    using assms(1) by (simp add: copyLink_def)
  moreover have "spec_is_heading (lines ! i)"
    using hd by (simp add: spec_is_heading_def startsWith_hash)
  ultimately show ?thesis by (simp add: notice_def)
qed

theorem copyLink_empty_heading_witness:
  "spec_is_heading ''## '' \<and>
   copyLink DEFAULT_SETTINGS
     \<lparr>editor_value = join_nl [''# A'', ''## '', ''text''], cursor_line = 2,
      view_file = Some \<lparr>path = ''folder/note.md'', basename = ''note''\<rparr>\<rparr>
     \<lparr>notices = [], clipboard = [], replaced = [], console = [], clipboard_ok = True\<rparr>
   = Inr \<lparr>notices = [''No heading found above the current cursor position.''],
          clipboard = [], replaced = [], console = [], clipboard_ok = True\<rparr>"
proof -
  let ?v = "\<lparr>editor_value = join_nl [''# A'', ''## '', ''text''], cursor_line = 2,
      view_file = Some \<lparr>path = ''folder/note.md'', basename = ''note''\<rparr>\<rparr>"
  let ?h = "\<lparr>notices = [], clipboard = [], replaced = [], console = [], clipboard_ok = True\<rparr>"
  have 1: "[''# A'', ''## '', ''text''] = split_nl (editor_value ?v)"
    by (simp add: split_nl_def)
  have 2: "1 \<le> cursor_line ?v" by simp
  have 3: "cursor_line ?v < length [''# A'', ''## '', ''text'']" by simp
  have 4: "[''# A'', ''## '', ''text''] ! 1 = replicate 2 (CHR ''#'') @ '' ''"
    by (simp add: numeral_2_eq_2)
  have 5: "(0::nat) < 2" by simp
  have 6: "\<forall>c\<in>set '' ''. is_space c" by (simp add: is_space_def)
  have 7: "\<forall>j. 1 < j \<and> j \<le> cursor_line ?v \<longrightarrow> \<not> spec_is_heading ([''# A'', ''## '', ''text''] ! j)"
  proof (intro allI impI)
    fix j :: nat assume "1 < j \<and> j \<le> cursor_line ?v"
    then have "j = 2" by simp
    then show "\<not> spec_is_heading ([''# A'', ''## '', ''text''] ! j)"
      by (simp add: spec_is_heading_def trim_def is_space_def)
  qed
  from copyLink_empty_heading [OF 1 2 3 4 5 6 7, of DEFAULT_SETTINGS ?h]
  show ?thesis by (simp add: notice_def)
qed

section \<open>Rendering the link format\<close>

text \<open>
  C2, as the code has it. The link format goes through three passes, for
  \<^verbatim>\<open>${fileDir}\<close>, \<^verbatim>\<open>${fileBasename}\<close> and \<^verbatim>\<open>${headingText}\<close> in this order,
  each over the result of the pass before. For values on which the dollar patterns
  of \<^verbatim>\<open>replaceAll\<close> have no effect: every \<^verbatim>\<open>${headingText}\<close> of the format
  becomes the heading text as it is, whatever the heading text contains, and the
  format around it is rendered on its own; the value put in for
  \<^verbatim>\<open>${fileBasename}\<close> is scanned again by the pass for \<^verbatim>\<open>${headingText}\<close>, and
  the value put in for \<^verbatim>\<open>${fileDir}\<close> by both later passes.
\<close>

theorem render_headingText_verbatim:
  assumes "\<not> has_dollar_pattern fileDir" and "\<not> has_dollar_pattern fileBasename"
    and "\<not> has_dollar_pattern headingText"
  shows "render (a @ ''${headingText}'' @ c) fileDir fileBasename headingText
           = render a fileDir fileBasename headingText @ headingText
               @ render c fileDir fileBasename headingText \<and>
         render ''${fileBasename}'' fileDir fileBasename headingText
           = replaceAll fileBasename ''${headingText}'' headingText \<and>
         render ''${fileDir}'' fileDir fileBasename headingText
           = replaceAll (replaceAll fileDir ''${fileBasename}'' fileBasename)
               ''${headingText}'' headingText"
proof (intro conjI)
  show "render (a @ ''${headingText}'' @ c) fileDir fileBasename headingText
           = render a fileDir fileBasename headingText @ headingText
               @ render c fileDir fileBasename headingText"
    unfolding render_def
    by (simp only: replaceAll_other [OF assms(1) placeholders(1) placeholders(3) placeholders_differ(1)]
        replaceAll_other [OF assms(2) placeholders(2) placeholders(3) placeholders_differ(2)]
        replaceAll_insert [OF assms(3) placeholders(3)])
  have 1: "replaceAll ''${fileBasename}'' ''${fileDir}'' fileDir = ''${fileBasename}''"
    using replaceAll_other [OF assms(1) placeholders(1) placeholders(2) placeholders_differ(3), of "[]" "[]"]
    by (simp add: replaceAll_Nil)
  have 2: "replaceAll ''${fileBasename}'' ''${fileBasename}'' fileBasename = fileBasename"
    using replaceAll_insert [OF assms(2) placeholders(2), of "[]" "[]"]
    by (simp add: replaceAll_Nil)
  show "render ''${fileBasename}'' fileDir fileBasename headingText
           = replaceAll fileBasename ''${headingText}'' headingText"
    unfolding render_def by (simp only: 1 2)
  have 3: "replaceAll ''${fileDir}'' ''${fileDir}'' fileDir = fileDir"
    using replaceAll_insert [OF assms(1) placeholders(1), of "[]" "[]"]
    by (simp add: replaceAll_Nil)
  show "render ''${fileDir}'' fileDir fileBasename headingText
           = replaceAll (replaceAll fileDir ''${fileBasename}'' fileBasename)
               ''${headingText}'' headingText"
    unfolding render_def by (simp only: 3)
qed

theorem render_headingText_verbatim_witness:
  "\<not> has_dollar_pattern ''X'' \<and> \<not> has_dollar_pattern ''note'' \<and>
   \<not> has_dollar_pattern ''${fileDir}'' \<and>
   render ''${headingText}'' ''X'' ''note'' ''${fileDir}'' = ''${fileDir}''"
proof -
  have 1: "\<not> has_dollar_pattern ''X''" by simp
  have 2: "\<not> has_dollar_pattern ''note''" by simp
  have 3: "\<not> has_dollar_pattern ''${fileDir}''" by simp
  have 4: "render [] ''X'' ''note'' ''${fileDir}'' = []"
    by (simp add: render_def replaceAll_def)
  from render_headingText_verbatim [OF 1 2 3, of "[]" "[]"] 1 2 3 4
  show ?thesis by simp
qed

text \<open>
  C2, as the claim states it, fails: a directory named like the placeholder of the
  heading text is replaced by the heading text.
\<close>

theorem render_rescans_counterexample:
  "render ''${fileDir}'' ''${headingText}'' ''note'' ''Intro'' = ''Intro'' \<and>
   render ''${fileDir}'' ''${headingText}'' ''note'' ''Intro'' \<noteq> ''${headingText}''"
  by code_simp

section \<open>The heading text\<close>

text \<open>
  C6, as the code has it. The heading text of \<open>copyLink\<close> has no white space at
  either end, and the heading text of a search result has no white space at its
  start.
\<close>

theorem headingText_shape:
  "(nearest_heading lines i = Inr (Some t) \<longrightarrow> trim t = t) \<and>
   (el \<in> set (results (searchHeadings files m)) \<longrightarrow>
      (\<exists>t. data_heading el = Some t \<and> dropWhile is_space t = t))"
proof (intro conjI impI)
  assume "nearest_heading lines i = Inr (Some t)"
  then obtain j where "startsWith (trim (lines ! j)) ''#''" and "t = strip_hashes (trim (lines ! j))"
    using nearest_heading_Some by blast
  then show "trim t = t"
    by (simp add: strip_hashes_def strip_trimmed trim_trim)
next
  assume "el \<in> set (results (searchHeadings files m))"
  then obtain f content heading where h: "heading \<in> set (match_headings content)"
    and el: "el = result_for f heading"
    unfolding searchHeadings_results by blast
  from h have "startsWith heading ''#''"
    unfolding match_headings_def by (rule match_headings_from_hash)
  then have "data_heading el = Some (dropWhile is_space (dropWhile is_hash heading))"
    by (simp add: el result_for_def strip_hashes_def Let_def)
  then show "\<exists>t. data_heading el = Some t \<and> dropWhile is_space t = t"
    by simp
qed

theorem headingText_shape_witness:
  "nearest_heading [''  ## Title  ''] 0 = Inr (Some ''Title'') \<and> trim ''Title'' = ''Title'' \<and>
   result_for \<lparr>path = ''n.md'', basename = ''n''\<rparr> ''# #a  ''
     \<in> set (results (searchHeadings [(\<lparr>path = ''n.md'', basename = ''n''\<rparr>, ''# #a  '')]
              \<lparr>query = ''a'', format = ''${headingText}'', results = [], opened = True\<rparr>)) \<and>
   dropWhile is_space ''#a  '' = ''#a  ''"
proof -
  let ?files = "[(\<lparr>path = ''n.md'', basename = ''n''\<rparr>, ''# #a  '')]"
  let ?m = "\<lparr>query = ''a'', format = ''${headingText}'', results = [], opened = True\<rparr>"
  let ?el = "result_for \<lparr>path = ''n.md'', basename = ''n''\<rparr> ''# #a  ''"
  have 1: "nearest_heading [''  ## Title  ''] 0 = Inr (Some ''Title'')"
    by code_simp
  have "results (searchHeadings ?files ?m) = [?el]"
    by code_simp
  then have 2: "?el \<in> set (results (searchHeadings ?files ?m))"
    by simp
  have 3: "data_heading ?el = Some ''#a  ''"
    by code_simp
  from headingText_shape [of "[''  ## Title  '']" 0 "''Title''" ?el ?files ?m] 1 2 3
  show ?thesis by simp
qed

text \<open>
  C6, as the claim states it, fails: only the first run of \<^verbatim>\<open>#\<close> is removed, so
  the heading text of the line \<open># #a\<close> starts with \<^verbatim>\<open>#\<close> in both flows, and the
  search keeps the white space at the end of the line.
\<close>

theorem headingText_counterexample:
  "nearest_heading [''# #a''] 0 = Inr (Some ''#a'') \<and>
   map data_heading (results (searchHeadings [(\<lparr>path = ''n.md'', basename = ''n''\<rparr>, ''# #a  '')]
      \<lparr>query = ''a'', format = ''${headingText}'', results = [], opened = True\<rparr>)) = [Some ''#a  '']"
  by code_simp

section \<open>The guard of matchLink\<close>

text \<open>
  C10. \<open>matchLink\<close> shows the notice and opens nothing exactly when the selection is
  the empty string; every other selection, one of white space only included, opens
  the modal with the lower-cased selection as the query.
\<close>

theorem matchLink_guard:
  "matchLink st files selection h =
     (if selection = [] then (notice ''No text selected!'' h, None)
      else (h, Some (onOpen files
              \<lparr>query = toLowerCase selection, format = linkFormat st,
               results = [], opened = True\<rparr>)))"
  by (simp add: matchLink_def Let_def toLowerCase_Nil)

theorem matchLink_guard_witness:
  "matchLink DEFAULT_SETTINGS [] ''  ''
     \<lparr>notices = [], clipboard = [], replaced = [], console = [], clipboard_ok = True\<rparr>
   = (\<lparr>notices = [], clipboard = [], replaced = [], console = [], clipboard_ok = True\<rparr>,
      Some \<lparr>query = ''  '', format = linkFormat DEFAULT_SETTINGS, results = [], opened = True\<rparr>)"
  using matchLink_guard [of DEFAULT_SETTINGS "[]" "''  ''"
      "\<lparr>notices = [], clipboard = [], replaced = [], console = [], clipboard_ok = True\<rparr>"]
  by (simp add: onOpen_def searchHeadings_def toLowerCase_def lower_char_def)

section \<open>The search\<close>

text \<open>
  C3, as the code has it. The search takes the matches of \<^verbatim>\<open>/^#+\s.*$/gm\<close>. In a
  content whose lines hold no line terminator and none of which is a bare run of
  \<^verbatim>\<open>#\<close>, the headings are exactly the lines that start, at their first character,
  with one or more \<^verbatim>\<open>#\<close> followed by a white space character; the results of
  the search are those of them whose lower-cased text includes the query.
\<close>

theorem search_heading_rule:
  assumes "\<forall>l\<in>set ls. (\<forall>c\<in>set l. \<not> is_line_terminator c) \<and> \<not> bare_hashes l"
  shows "match_headings (join_nl ls) = filter hash_space_heading ls \<and>
         results (searchHeadings [(f, join_nl ls)] m)
           = map (result_for f)
               (filter (\<lambda>l. hash_space_heading l \<and> includes_str (toLowerCase l) (query m)) ls) \<and>
         (\<forall>l. hash_space_heading l \<longleftrightarrow>
            (\<exists>k w r. 0 < k \<and> l = replicate k (CHR ''#'') @ w # r \<and> is_space w))"
proof (intro conjI allI)
  show m: "match_headings (join_nl ls) = filter hash_space_heading ls"
    unfolding match_headings_def using assms by (rule match_headings_lines)
  show "results (searchHeadings [(f, join_nl ls)] m)
           = map (result_for f)
               (filter (\<lambda>l. hash_space_heading l \<and> includes_str (toLowerCase l) (query m)) ls)"
    by (simp add: searchHeadings_def m conj_commute)
  show "hash_space_heading l \<longleftrightarrow>
          (\<exists>k w r. 0 < k \<and> l = replicate k (CHR ''#'') @ w # r \<and> is_space w)" for l
    by (rule hash_space_heading_iff)
qed

theorem search_heading_rule_witness:
  "match_headings (join_nl [''# A'', ''#B'', '' # C'', ''text'', ''##  D'']) = [''# A'', ''##  D'']"
proof -
  let ?ls = "[''# A'', ''#B'', '' # C'', ''text'', ''##  D'']"
  have "\<forall>l\<in>set ?ls. (\<forall>c\<in>set l. \<not> is_line_terminator c) \<and> \<not> bare_hashes l"
    by (simp add: is_line_terminator_def bare_hashes_def is_hash_def)
  from search_heading_rule [OF this]
  have "match_headings (join_nl ?ls) = filter hash_space_heading ?ls" by blast
  also have "\<dots> = [''# A'', ''##  D'']"
    by (simp add: hash_space_heading_def is_hash_def is_space_def)
  finally show ?thesis .
qed

text \<open>
  C3, as the claim states it, fails: the lines \<open>#Title\<close> and \<open>  # Title\<close> are headings
  by the rule of the nearest heading, and the search with the empty query, which
  every heading includes, finds neither.
\<close>

theorem search_heading_rule_counterexample:
  "spec_is_heading ''#Title'' \<and> spec_is_heading ''  # Title'' \<and>
   results (onChange [(\<lparr>path = ''a.md'', basename = ''a''\<rparr>, join_nl [''#Title'', ''  # Title''])] ''''
      \<lparr>query = ''t'', format = ''${headingText}'', results = [], opened = True\<rparr>) = []"
  by code_simp

text \<open>
  C4. The selection that opens the modal is lower-cased, the value of a keystroke is
  not: opened on the selection \<open>Intro\<close> the modal lists the heading \<open># Introduction\<close>;
  after the keystroke value \<open>Intro\<close> it lists nothing, and after \<open>intro\<close> it lists the
  heading again.
\<close>

theorem keystroke_query_case:
  "map_option (map data_heading \<circ> results)
     (snd (matchLink DEFAULT_SETTINGS
        [(\<lparr>path = ''a.md'', basename = ''a''\<rparr>, ''# Introduction'')] ''Intro''
        \<lparr>notices = [], clipboard = [], replaced = [], console = [], clipboard_ok = True\<rparr>))
     = Some [Some ''Introduction''] \<and>
   results (onChange [(\<lparr>path = ''a.md'', basename = ''a''\<rparr>, ''# Introduction'')] ''Intro''
      \<lparr>query = ''intro'', format = ''${headingText}'', results = [], opened = True\<rparr>) = [] \<and>
   map data_heading
     (results (onChange [(\<lparr>path = ''a.md'', basename = ''a''\<rparr>, ''# Introduction'')] ''intro''
        \<lparr>query = ''intro'', format = ''${headingText}'', results = [], opened = True\<rparr>))
     = [Some ''Introduction'']"
  by code_simp

section \<open>Selecting a result\<close>

text \<open>
  C7. For every result of the search, with path \<open>p\<close>, that the click handler does
  not find incomplete: the handler replaces the selection by the link rendered from
  the format with a directory that is the part of \<open>p\<close>, as it is, before its last
  separator, and a basename that is the part after it, without the extension; when
  \<open>p\<close> has no separator the directory is empty and the basename is \<open>p\<close> without the
  extension.
\<close>

theorem search_select_fileDir:
  assumes "el \<in> set (results (searchHeadings files m))"
    and "\<not> missing (data_path el)" and "\<not> missing (data_heading el)"
  shows "\<exists>p t fileDir fileBasename.
           data_path el = Some p \<and> data_heading el = Some t \<and>
           onClick el (m', h) =
             (close m',
              notice ''Text replaced with link.''
                (replaceSelection (''[['' @ render (format m') fileDir fileBasename t @ '']]'') h)) \<and>
           (CHR ''/'' \<in> set p \<longrightarrow>
              (\<exists>seg. p = fileDir @ CHR ''/'' # seg \<and> CHR ''/'' \<notin> set seg \<and>
                     fileBasename = strip_md seg)) \<and>
           (CHR ''/'' \<notin> set p \<longrightarrow> fileDir = [] \<and> fileBasename = strip_md p)"
proof -
  from assms(1) obtain f heading where el: "el = result_for f heading"
    unfolding searchHeadings_results by blast
  let ?p = "path f" and ?t = "strip_hashes heading"
  have 1: "data_path el = Some ?p" and 2: "file_path el = ?p" and 3: "data_heading el = Some ?t"
    by (simp_all add: el result_for_def Let_def)
  have 4: "onClick el (m', h) =
             (close m',
              notice ''Text replaced with link.''
                (replaceSelection
                   (''[['' @ render (format m') (click_fileDir ?p ?p) (click_fileBasename ?p) ?t @ '']]'') h))"
    using assms(2,3) by (simp add: onClick_def 1 2 3 Let_def wiki_link_def)
  show ?thesis
    using 1 3 4 click_parts [of ?p] by blast
qed

theorem search_select_fileDir_witness:
  "onClick (result_for \<lparr>path = ''x/y.md'', basename = ''y''\<rparr> ''## Setup Steps'')
     (\<lparr>query = ''setup'', format = linkFormat DEFAULT_SETTINGS, results = [], opened = True\<rparr>,
      \<lparr>notices = [], clipboard = [], replaced = [], console = [], clipboard_ok = True\<rparr>)
   = (\<lparr>query = ''setup'', format = linkFormat DEFAULT_SETTINGS, results = [], opened = False\<rparr>,
      \<lparr>notices = [''Text replaced with link.''], clipboard = [],
       replaced = [''[[x/y#Setup Steps|Setup Steps]]''], console = [], clipboard_ok = True\<rparr>)"
proof -
  let ?files = "[(\<lparr>path = ''x/y.md'', basename = ''y''\<rparr>, ''## Setup Steps'')]"
  let ?m = "\<lparr>query = ''setup'', format = linkFormat DEFAULT_SETTINGS, results = [], opened = True\<rparr>"
  let ?h = "\<lparr>notices = [], clipboard = [], replaced = [], console = [], clipboard_ok = True\<rparr>"
  let ?el = "result_for \<lparr>path = ''x/y.md'', basename = ''y''\<rparr> ''## Setup Steps''"
  have "results (searchHeadings ?files ?m) = [?el]"
    by code_simp
  then have a: "?el \<in> set (results (searchHeadings ?files ?m))"
    by simp
  have p: "data_path ?el = Some ''x/y.md''" and t: "data_heading ?el = Some ''Setup Steps''"
    by code_simp+
  have b: "\<not> missing (data_path ?el)" and c: "\<not> missing (data_heading ?el)"
    unfolding p t by (simp_all add: missing_def)
  from search_select_fileDir [OF a b c, of ?m ?h] p t
  obtain d b where o: "onClick ?el (?m, ?h) =
             (close ?m,
              notice ''Text replaced with link.''
                (replaceSelection (''[['' @ render (format ?m) d b ''Setup Steps'' @ '']]'') ?h))"
    and s: "CHR ''/'' \<in> set ''x/y.md'' \<longrightarrow>
              (\<exists>seg. ''x/y.md'' = d @ CHR ''/'' # seg \<and> CHR ''/'' \<notin> set seg \<and> b = strip_md seg)"
    by auto
  from s obtain seg where seg: "''x'' @ CHR ''/'' # ''y.md'' = d @ CHR ''/'' # seg"
    "CHR ''/'' \<notin> set seg" "b = strip_md seg"
    by auto
  have "CHR ''/'' \<notin> set ''y.md''" by simp
  from last_sep_unique [OF seg(1) this seg(2)] have d: "d = ''x''" and "seg = ''y.md''"
    by simp_all
  then have b: "b = ''y''" using seg(3) by (simp add: strip_md_def)
  have r: "render (format ?m) ''x'' ''y'' ''Setup Steps'' = ''x/y#Setup Steps|Setup Steps''"
    by code_simp
  show ?thesis
    unfolding o d b r by (simp add: close_def notice_def replaceSelection_def)
qed

text \<open>
  C8. When the path or the heading of the selected result is missing, which the
  handler tests as \<^verbatim>\<open>null\<close> or the empty string, the handler shows the notice,
  replaces nothing and leaves the modal as it is. Otherwise the link rendered from
  the format of the modal replaces the selection and the modal is closed.
\<close>

theorem onClick_incomplete:
  "(missing (data_path el) \<or> missing (data_heading el) \<longrightarrow>
      onClick el (m, h) = (m, notice ''Failed to retrieve file path or heading.'' h) \<and>
      replaced (notice ''Failed to retrieve file path or heading.'' h) = replaced h) \<and>
   (\<not> missing (data_path el) \<and> \<not> missing (data_heading el) \<longrightarrow>
      (\<exists>p t. data_path el = Some p \<and> data_heading el = Some t \<and>
         onClick el (m, h) =
           (close m,
            notice ''Text replaced with link.''
              (replaceSelection
                 (wiki_link (format m) (click_fileDir p (file_path el)) (click_fileBasename p) t) h)) \<and>
         \<not> opened (close m)))"
  by (auto simp: onClick_def missing_def Let_def notice_def close_def split: option.splits)

theorem onClick_incomplete_witness:
  "onClick \<lparr>el_text = ''x/y.md - '', data_path = Some ''x/y.md'', data_heading = Some '''',
            file_path = ''x/y.md''\<rparr>
     (\<lparr>query = ''#'', format = ''${fileDir}/${fileBasename}#${headingText}'', results = [], opened = True\<rparr>,
      \<lparr>notices = [], clipboard = [], replaced = [], console = [], clipboard_ok = True\<rparr>)
   = (\<lparr>query = ''#'', format = ''${fileDir}/${fileBasename}#${headingText}'', results = [], opened = True\<rparr>,
      \<lparr>notices = [''Failed to retrieve file path or heading.''], clipboard = [], replaced = [],
       console = [], clipboard_ok = True\<rparr>) \<and>
   onClick \<lparr>el_text = ''x/y.md - Setup Steps'', data_path = Some ''x/y.md'',
            data_heading = Some ''Setup Steps'', file_path = ''x/y.md''\<rparr>
     (\<lparr>query = ''setup'', format = ''${fileDir}/${fileBasename}#${headingText}'', results = [], opened = True\<rparr>,
      \<lparr>notices = [], clipboard = [], replaced = [], console = [], clipboard_ok = True\<rparr>)
   = (\<lparr>query = ''setup'', format = ''${fileDir}/${fileBasename}#${headingText}'', results = [], opened = False\<rparr>,
      \<lparr>notices = [''Text replaced with link.''], clipboard = [],
       replaced = [''[[x/y#Setup Steps]]''], console = [], clipboard_ok = True\<rparr>)"
proof -
  let ?e1 = "\<lparr>el_text = ''x/y.md - '', data_path = Some ''x/y.md'', data_heading = Some '''',
            file_path = ''x/y.md''\<rparr>"
  let ?e2 = "\<lparr>el_text = ''x/y.md - Setup Steps'', data_path = Some ''x/y.md'',
            data_heading = Some ''Setup Steps'', file_path = ''x/y.md''\<rparr>"
  let ?m1 = "\<lparr>query = ''#'', format = ''${fileDir}/${fileBasename}#${headingText}'', results = [], opened = True\<rparr>"
  let ?m2 = "\<lparr>query = ''setup'', format = ''${fileDir}/${fileBasename}#${headingText}'', results = [], opened = True\<rparr>"
  let ?h = "\<lparr>notices = [], clipboard = [], replaced = [], console = [], clipboard_ok = True\<rparr>"
  have a: "missing (data_path ?e1) \<or> missing (data_heading ?e1)"
    by (simp add: missing_def)
  have b: "\<not> missing (data_path ?e2) \<and> \<not> missing (data_heading ?e2)"
    by (simp add: missing_def)
  have l: "wiki_link (format ?m2) (click_fileDir ''x/y.md'' (file_path ?e2)) (click_fileBasename ''x/y.md'') ''Setup Steps''
            = ''[[x/y#Setup Steps]]''"
    by code_simp
  from onClick_incomplete [of ?e1 ?m1 ?h] a
  have 1: "onClick ?e1 (?m1, ?h) = (?m1, notice ''Failed to retrieve file path or heading.'' ?h)"
    by blast
  from onClick_incomplete [of ?e2 ?m2 ?h] b
  have 2: "onClick ?e2 (?m2, ?h) = (close ?m2, notice ''Text replaced with link.''
              (replaceSelection
                 (wiki_link (format ?m2) (click_fileDir ''x/y.md'' (file_path ?e2)) (click_fileBasename ''x/y.md'') ''Setup Steps'') ?h))"
    by auto
  show ?thesis
    unfolding 1 2 l by (simp add: notice_def close_def replaceSelection_def)
qed

end
